theory Spec2Isabelle
  imports Complex_Main "HOL-Library.Log_Nat"
begin

section \<open>The program\<close>

text \<open>
  A shallow embedding of \<^verbatim>\<open>wsl2_svg_gui_v3_clean.py\<close>, the Tk front end that drives
  \<^verbatim>\<open>mkbitmap\<close>, \<^verbatim>\<open>potrace\<close> and \<^verbatim>\<open>rsvg-convert\<close>. Python's \<open>float\<close> is IEEE 754
  binary64, so the size computations are modelled with correctly rounded arithmetic on
  rationals; exceptions are values of a sum type; the fields of the GUI object, the file
  system and the Tk timer queue are explicit state.
\<close>

subsection \<open>Python exceptions\<close>

datatype py_exn =
    ZeroDivisionError | OverflowError | ValueError | FileNotFoundError | FileExistsError
  | OSError | TimeoutExpired | UnicodeDecodeError | UnidentifiedImageError | RuntimeError

subsection \<open>Binary64 floating point\<close>

text \<open>
  A float is a finite value (a rational that the rounding function below produces), an
  infinity or \<open>nan\<close>. \<open>ilog2 x\<close> is the binary exponent of \<open>x\<close>, that is
  \<open>\<lfloor>log\<^sub>2 \<bar>x\<bar>\<rfloor>\<close>; \<open>fl_quantum x\<close> is the spacing of the doubles around \<open>x\<close>
  (53 significant bits, gradual underflow below \<open>2\<^sup>-\<^sup>1\<^sup>0\<^sup>2\<^sup>2\<close>); \<open>fl_nearest\<close> rounds to the
  nearest multiple of the spacing, ties to even; \<open>fl_round\<close> adds the overflow to an
  infinity.
\<close>

datatype pyfloat = Fin rat | PInf | NInf | NaN

definition ilog2 :: "rat \<Rightarrow> int" where
  "ilog2 x = (case quotient_of \<bar>x\<bar> of (p, q) \<Rightarrow>
     (let d = bitlen p - bitlen q in if \<bar>x\<bar> < 2 powi d then d - 1 else d))"

definition round_half_even :: "rat \<Rightarrow> int" where
  "round_half_even y = (let f = \<lfloor>y\<rfloor>; r = y - of_int f in
     if r < 1 / 2 then f else if 1 / 2 < r then f + 1 else if even f then f else f + 1)"

definition fl_quantum :: "rat \<Rightarrow> rat" where
  "fl_quantum x = 2 powi (max (ilog2 x - 52) (- 1074))"

definition fl_nearest :: "rat \<Rightarrow> rat" where
  "fl_nearest x = (if x = 0 then 0 else of_int (round_half_even (x / fl_quantum x)) * fl_quantum x)"

definition fl_round :: "rat \<Rightarrow> pyfloat" where
  "fl_round x = (let r = fl_nearest x in
     if 2 ^ 1024 \<le> r then PInf else if r \<le> - (2 ^ 1024) then NInf else Fin r)"

text \<open>
  Python's \<open>a / b\<close> on floats: a zero divisor raises \<open>ZeroDivisionError\<close>, everything
  else follows IEEE 754 (the sign of a zero is not represented, since no operation of the
  program can observe it).
\<close>

definition float_truediv :: "pyfloat \<Rightarrow> pyfloat \<Rightarrow> py_exn + pyfloat" where
  "float_truediv a b =
     (case b of
        Fin y \<Rightarrow>
          if y = 0 then Inl ZeroDivisionError
          else (case a of
                  Fin x \<Rightarrow> Inr (fl_round (x / y))
                | PInf \<Rightarrow> Inr (if 0 < y then PInf else NInf)
                | NInf \<Rightarrow> Inr (if 0 < y then NInf else PInf)
                | NaN \<Rightarrow> Inr NaN)
      | NaN \<Rightarrow> Inr NaN
      | _ \<Rightarrow> (case a of Fin x \<Rightarrow> Inr (Fin 0) | _ \<Rightarrow> Inr NaN))"

text \<open>Python's \<open>a * b\<close> on floats.\<close>

definition float_mul :: "pyfloat \<Rightarrow> pyfloat \<Rightarrow> pyfloat" where
  "float_mul a b =
     (case (a, b) of
        (Fin x, Fin y) \<Rightarrow> fl_round (x * y)
      | (NaN, _) \<Rightarrow> NaN
      | (_, NaN) \<Rightarrow> NaN
      | (Fin x, PInf) \<Rightarrow> (if x = 0 then NaN else if 0 < x then PInf else NInf)
      | (Fin x, NInf) \<Rightarrow> (if x = 0 then NaN else if 0 < x then NInf else PInf)
      | (PInf, Fin y) \<Rightarrow> (if y = 0 then NaN else if 0 < y then PInf else NInf)
      | (NInf, Fin y) \<Rightarrow> (if y = 0 then NaN else if 0 < y then NInf else PInf)
      | (PInf, PInf) \<Rightarrow> PInf
      | (NInf, NInf) \<Rightarrow> PInf
      | (PInf, NInf) \<Rightarrow> NInf
      | (NInf, PInf) \<Rightarrow> NInf)"

text \<open>Python's \<open>a < b\<close> on floats: every comparison with \<open>nan\<close> is false.\<close>

definition float_lt :: "pyfloat \<Rightarrow> pyfloat \<Rightarrow> bool" where
  "float_lt a b =
     (case (a, b) of
        (Fin x, Fin y) \<Rightarrow> x < y
      | (NaN, _) \<Rightarrow> False
      | (_, NaN) \<Rightarrow> False
      | (NInf, NInf) \<Rightarrow> False
      | (NInf, _) \<Rightarrow> True
      | (_, PInf) \<Rightarrow> (a \<noteq> PInf)
      | _ \<Rightarrow> False)"

text \<open>
  Python's \<open>min(x, y1, ..., yn)\<close>: the first argument is kept until a later one is
  strictly smaller.
\<close>

definition py_min :: "pyfloat \<Rightarrow> pyfloat list \<Rightarrow> pyfloat" where
  "py_min x ys = foldl (\<lambda>m y. if float_lt y m then y else m) x ys"

text \<open>
  The implicit conversion of an \<open>int\<close> operand to \<open>float\<close> (correctly rounded,
  \<open>OverflowError\<close> beyond the largest double) and \<open>int(x)\<close> on a float (truncation
  towards zero; \<open>OverflowError\<close> on an infinity, \<open>ValueError\<close> on \<open>nan\<close>).
\<close>

definition float_of_int :: "int \<Rightarrow> py_exn + pyfloat" where
  "float_of_int n = (case fl_round (of_int n) of Fin r \<Rightarrow> Inr (Fin r) | _ \<Rightarrow> Inl OverflowError)"

definition int_of_float :: "pyfloat \<Rightarrow> py_exn + int" where
  "int_of_float a =
     (case a of
        Fin x \<Rightarrow> Inr (if 0 \<le> x then \<lfloor>x\<rfloor> else \<lceil>x\<rceil>)
      | NaN \<Rightarrow> Inl ValueError
      | _ \<Rightarrow> Inl OverflowError)"

text \<open>Sequencing of computations that may raise: the first exception wins.\<close>

definition bind_exn :: "'e + 'a \<Rightarrow> ('a \<Rightarrow> 'e + 'b) \<Rightarrow> 'e + 'b" where
  "bind_exn m f = (case m of Inl e \<Rightarrow> Inl e | Inr x \<Rightarrow> f x)"

subsection \<open>The preview size of \<^verbatim>\<open>convert_svg_to_png_wsl2\<close>\<close>

text \<open>
  Lines 365 to 375:
  \<^verbatim>\<open>
  canvas_width, canvas_height = target_canvas_size
  scale_x = canvas_width / svg_width
  scale_y = canvas_height / svg_height
  scale_factor = min(scale_x, scale_y)
  final_width = int(svg_width * scale_factor)
  final_height = int(svg_height * scale_factor)
  \<close>
  The canvas size is a pair of \<open>int\<close>s (\<open>(400, 300)\<close> for the preview, \<open>(512, 512)\<close>
  for the export); the SVG size is a pair of floats. An exception raised here is caught by
  the enclosing \<^verbatim>\<open>try\<close> of the function, which then returns \<^verbatim>\<open>None\<close>.
\<close>

definition scale_factor :: "int \<times> int \<Rightarrow> pyfloat \<Rightarrow> pyfloat \<Rightarrow> py_exn + pyfloat" where
  "scale_factor target_canvas_size svg_width svg_height =
     (case target_canvas_size of (canvas_width, canvas_height) \<Rightarrow>
        bind_exn (float_of_int canvas_width) (\<lambda>cw.
        bind_exn (float_truediv cw svg_width) (\<lambda>scale_x.
        bind_exn (float_of_int canvas_height) (\<lambda>ch.
        bind_exn (float_truediv ch svg_height) (\<lambda>scale_y.
        Inr (py_min scale_x [scale_y]))))))"

definition final_dimensions :: "int \<times> int \<Rightarrow> pyfloat \<Rightarrow> pyfloat \<Rightarrow> py_exn + int \<times> int" where
  "final_dimensions target_canvas_size svg_width svg_height =
     bind_exn (scale_factor target_canvas_size svg_width svg_height) (\<lambda>scale_factor.
     bind_exn (int_of_float (float_mul svg_width scale_factor)) (\<lambda>final_width.
     bind_exn (int_of_float (float_mul svg_height scale_factor)) (\<lambda>final_height.
     Inr (final_width, final_height))))"

subsection \<open>The display size of \<^verbatim>\<open>display_image_consistent\<close>\<close>

text \<open>
  Lines 447 to 461:
  \<^verbatim>\<open>
  canvas_width = max(canvas.winfo_width(), 390)
  canvas_height = max(canvas.winfo_height(), 290)
  padding = 10
  available_width = canvas_width - (2 * padding)
  available_height = canvas_height - (2 * padding)
  width_ratio = available_width / image.width
  height_ratio = available_height / image.height
  scale_factor = min(width_ratio, height_ratio, 1.0)  # Don't upscale
  new_width = int(image.width * scale_factor)
  new_height = int(image.height * scale_factor)
  \<close>
  All operands are \<open>int\<close>s here: \<open>/\<close> is the correctly rounded quotient of two integers
  (\<open>ZeroDivisionError\<close> on a zero divisor, \<open>OverflowError\<close> when the quotient exceeds the
  doubles), and \<open>int * float\<close> converts the integer first. An exception is caught by the
  \<^verbatim>\<open>try\<close> of the method, which then draws an error text instead of the image.
\<close>

definition int_truediv :: "int \<Rightarrow> int \<Rightarrow> py_exn + pyfloat" where
  "int_truediv a b =
     (if b = 0 then Inl ZeroDivisionError
      else (case fl_round (of_int a / of_int b) of
              Fin r \<Rightarrow> Inr (Fin r)
            | _ \<Rightarrow> Inl OverflowError))"

definition int_float_mul :: "int \<Rightarrow> pyfloat \<Rightarrow> py_exn + pyfloat" where
  "int_float_mul n x = bind_exn (float_of_int n) (\<lambda>a. Inr (float_mul a x))"

definition available_area :: "int \<times> int \<Rightarrow> int \<times> int" where
  "available_area winfo =
     (case winfo of (winfo_width, winfo_height) \<Rightarrow>
        let canvas_width = max winfo_width 390;
            canvas_height = max winfo_height 290;
            padding = 10
        in (canvas_width - 2 * padding, canvas_height - 2 * padding))"

definition display_scale_factor :: "int \<times> int \<Rightarrow> int \<times> int \<Rightarrow> py_exn + pyfloat" where
  "display_scale_factor winfo image_size =
     (case (available_area winfo, image_size) of
        ((available_width, available_height), (image_width, image_height)) \<Rightarrow>
          bind_exn (int_truediv available_width image_width) (\<lambda>width_ratio.
          bind_exn (int_truediv available_height image_height) (\<lambda>height_ratio.
          Inr (py_min width_ratio [height_ratio, Fin 1]))))"

definition display_new_size :: "int \<times> int \<Rightarrow> int \<times> int \<Rightarrow> py_exn + int \<times> int" where
  "display_new_size winfo image_size =
     (case image_size of (image_width, image_height) \<Rightarrow>
        bind_exn (display_scale_factor winfo image_size) (\<lambda>scale_factor.
        bind_exn (bind_exn (int_float_mul image_width scale_factor) int_of_float) (\<lambda>new_width.
        bind_exn (bind_exn (int_float_mul image_height scale_factor) int_of_float) (\<lambda>new_height.
        Inr (new_width, new_height)))))"

section \<open>Properties\<close>

subsection \<open>Rounding\<close>

lemma bitlen_powi_bounds:
  fixes p :: int
  assumes "0 < p"
  shows "2 powi (bitlen p - 1) \<le> (of_int p :: rat)" and "(of_int p :: rat) < 2 powi bitlen p"
proof -
  from bitlen_bounds [OF assms]
  have lo: "2 ^ nat (bitlen p - 1) \<le> p" and hi: "p < 2 ^ nat (bitlen p)" by simp_all
  have b1: "1 \<le> bitlen p" using assms by (auto simp: bitlen_alt_def)
  have "(of_int (2 ^ nat (bitlen p - 1)) :: rat) \<le> of_int p"
    using lo by (simp only: of_int_le_iff)
  moreover have "(2::rat) powi (bitlen p - 1) = 2 ^ nat (bitlen p - 1)"
    using b1 by (simp add: power_int_def)
  ultimately show "2 powi (bitlen p - 1) \<le> (of_int p :: rat)" by simp
  have "(of_int p :: rat) < of_int (2 ^ nat (bitlen p))"
    using hi by (simp only: of_int_less_iff)
  moreover have "(2::rat) powi bitlen p = 2 ^ nat (bitlen p)"
    using b1 by (simp add: power_int_def)
  ultimately show "(of_int p :: rat) < 2 powi bitlen p" by simp
qed

lemma ilog2_bounds:
  assumes "x \<noteq> 0"
  shows "2 powi ilog2 x \<le> \<bar>x\<bar>" and "\<bar>x\<bar> < 2 powi (ilog2 x + 1)"
proof -
  obtain p q where pq: "quotient_of \<bar>x\<bar> = (p, q)" by (cases "quotient_of \<bar>x\<bar>")
  have q0: "0 < q" using pq quotient_of_denom_pos by blast
  have xeq: "\<bar>x\<bar> = of_int p / of_int q" using pq quotient_of_div by blast
  have xpos: "0 < \<bar>x\<bar>" using assms by simp
  have p0: "0 < p"
    using xpos q0 unfolding xeq by (simp add: zero_less_divide_iff)
  define d where "d = bitlen p - bitlen q"
  note bp = bitlen_powi_bounds [OF p0] and bq = bitlen_powi_bounds [OF q0]
  have qr: "(0::rat) < of_int q" using q0 by simp
  have lo: "2 powi (d - 1) \<le> \<bar>x\<bar>"
  proof -
    have "2 powi (d - 1) * (of_int q :: rat) \<le> 2 powi (d - 1) * 2 powi bitlen q"
      using bq(2) by (intro mult_left_mono) simp_all
    also have "\<dots> = 2 powi (bitlen p - 1)"
      by (simp add: d_def power_int_add [symmetric])
    also have "\<dots> \<le> of_int p" by (rule bp(1))
    finally show ?thesis unfolding xeq using qr by (simp add: pos_le_divide_eq)
  qed
  have hi: "\<bar>x\<bar> < 2 powi (d + 1)"
  proof -
    have "(of_int p :: rat) < 2 powi bitlen p" by (rule bp(2))
    also have "\<dots> = 2 powi (d + 1) * 2 powi (bitlen q - 1)"
      by (simp add: d_def power_int_add [symmetric])
    also have "\<dots> \<le> 2 powi (d + 1) * of_int q"
      using bq(1) by (intro mult_left_mono) simp_all
    finally show ?thesis unfolding xeq using qr by (simp add: pos_divide_less_eq)
  qed
  have il: "ilog2 x = (if \<bar>x\<bar> < 2 powi d then d - 1 else d)"
    by (simp add: ilog2_def pq d_def Let_def)
  show "2 powi ilog2 x \<le> \<bar>x\<bar>" using lo by (simp add: il)
  show "\<bar>x\<bar> < 2 powi (ilog2 x + 1)" using hi by (simp add: il)
qed

lemma powi2_less_D: "(2::rat) powi a < 2 powi b \<Longrightarrow> a < b"
proof (rule ccontr)
  assume l: "(2::rat) powi a < 2 powi b" and "\<not> a < b"
  then have "b \<le> a" by simp
  then have "(2::rat) powi b \<le> 2 powi a" by (rule power_int_increasing) simp
  with l show False by simp
qed

lemma powi2_le_D: "(2::rat) powi a \<le> 2 powi b \<Longrightarrow> a \<le> b"
proof (rule ccontr)
  assume l: "(2::rat) powi a \<le> 2 powi b" and "\<not> a \<le> b"
  then have "b < a" by simp
  then have "(2::rat) powi b < 2 powi a" by (rule power_int_strict_increasing) simp
  with l show False by simp
qed

lemma ilog2_eqI:
  assumes "2 powi e \<le> \<bar>x\<bar>" and "\<bar>x\<bar> < 2 powi (e + 1)"
  shows "ilog2 x = e"
proof -
  have "\<not> (2::rat) powi e \<le> 0" by (simp add: not_le)
  then have x0: "x \<noteq> 0" using assms(1) by auto
  note b = ilog2_bounds [OF x0]
  have "(2::rat) powi e < 2 powi (ilog2 x + 1)" using assms(1) b(2) by simp
  then have "e < ilog2 x + 1" by (rule powi2_less_D)
  moreover have "(2::rat) powi ilog2 x < 2 powi (e + 1)" using assms(2) b(1) by simp
  then have "ilog2 x < e + 1" by (rule powi2_less_D)
  ultimately show ?thesis by simp
qed

lemma round_half_even_error: "\<bar>of_int (round_half_even y) - y\<bar> \<le> 1 / 2"
proof -
  have "of_int \<lfloor>y\<rfloor> \<le> y" "y < of_int \<lfloor>y\<rfloor> + 1" by linarith+
  then show ?thesis by (auto simp: round_half_even_def Let_def abs_le_iff)
qed

lemma fl_quantum_pos: "0 < fl_quantum x"
  by (simp add: fl_quantum_def)

lemma fl_quantum_le:
  assumes "x \<noteq> 0"
  shows "fl_quantum x \<le> \<bar>x\<bar> / 2 ^ 52 + 1 / 2 ^ 1074"
proof (cases "ilog2 x - 52 \<le> - 1074")
  case True
  then have "fl_quantum x = 2 powi (- 1074)" by (simp add: fl_quantum_def max_def)
  also have "\<dots> = 1 / 2 ^ 1074" by (simp add: power_int_minus_divide)
  finally show ?thesis by simp
next
  case False
  then have "fl_quantum x = 2 powi (ilog2 x - 52)" by (simp add: fl_quantum_def max_def)
  also have "\<dots> = 2 powi ilog2 x / 2 ^ 52" by (simp add: power_int_diff)
  also have "\<dots> \<le> \<bar>x\<bar> / 2 ^ 52"
    using ilog2_bounds(1) [OF assms] by (simp add: divide_right_mono)
  finally show ?thesis by simp
qed

lemma fl_nearest_error: "\<bar>fl_nearest x - x\<bar> \<le> \<bar>x\<bar> / 2 ^ 53 + 1 / 2 ^ 1075"
proof (cases "x = 0")
  case True
  then show ?thesis by (simp add: fl_nearest_def)
next
  case False
  define q where "q = fl_quantum x"
  have q0: "0 < q" by (simp add: q_def fl_quantum_pos)
  have "fl_nearest x - x = (of_int (round_half_even (x / q)) - x / q) * q"
    using False q0 by (simp add: fl_nearest_def q_def algebra_simps)
  then have "\<bar>fl_nearest x - x\<bar> = \<bar>of_int (round_half_even (x / q)) - x / q\<bar> * q"
    using q0 by (simp add: abs_mult)
  also have "\<dots> \<le> (1 / 2) * q"
    using round_half_even_error [of "x / q"] q0 by (intro mult_right_mono) simp_all
  also have "\<dots> \<le> (1 / 2) * (\<bar>x\<bar> / 2 ^ 52 + 1 / 2 ^ 1074)"
    using fl_quantum_le [OF False] by (simp add: q_def)
  also have "\<dots> = \<bar>x\<bar> / 2 ^ 53 + 1 / 2 ^ 1075" by simp
  finally show ?thesis .
qed

lemma round_half_even_nonneg: "0 \<le> y \<Longrightarrow> 0 \<le> round_half_even y"
  by (auto simp: round_half_even_def Let_def)

lemma round_half_even_of_int: "round_half_even (of_int k) = k"
  by (simp add: round_half_even_def Let_def)

lemma fl_nearest_nonneg: "0 \<le> x \<Longrightarrow> 0 \<le> fl_nearest x"
  using fl_quantum_pos [of x]
  by (simp add: fl_nearest_def round_half_even_nonneg less_imp_le)

lemma fl_nearest_of_int:
  assumes "\<bar>n\<bar> \<le> 2 ^ 53"
  shows "fl_nearest (of_int n) = of_int n"
proof (cases "n = 0")
  case True
  then show ?thesis by (simp add: fl_nearest_def)
next
  case False
  define x :: rat where "x = of_int n"
  define e where "e = ilog2 x"
  have x0: "x \<noteq> 0" using False by (simp add: x_def)
  have ax: "\<bar>x\<bar> = of_int \<bar>n\<bar>" by (simp add: x_def)
  have "1 \<le> \<bar>n\<bar>" using False by simp
  then have x1: "1 \<le> \<bar>x\<bar>" unfolding ax by (simp only: of_int_1_le_iff)
  have "(of_int \<bar>n\<bar> :: rat) \<le> of_int (2 ^ 53)" using assms by (simp only: of_int_le_iff)
  then have x53: "\<bar>x\<bar> \<le> 2 ^ 53" unfolding ax by simp
  note b = ilog2_bounds [OF x0, folded e_def]
  have "(2::rat) powi 0 < 2 powi (e + 1)" using x1 b(2) by simp
  then have "0 < e + 1" by (rule powi2_less_D)
  then have e0: "0 \<le> e" by simp
  have "(2::rat) powi e \<le> 2 powi 53" using b(1) x53 by simp
  then have e53: "e \<le> 53" by (rule powi2_le_D)
  have q: "fl_quantum x = 2 powi (e - 52)"
    using e0 by (simp add: fl_quantum_def e_def [symmetric] max_def)
  have "\<exists>k. x / fl_quantum x = of_int k"
  proof (cases "e = 53")
    case True
    have "(2::rat) ^ 53 \<le> \<bar>x\<bar>" using b(1) True by simp
    with x53 have "\<bar>x\<bar> = 2 ^ 53" by simp
    then have "x = 2 ^ 53 \<or> x = - (2 ^ 53)" by (simp add: abs_if split: if_splits)
    moreover have "fl_quantum x = 2" using q True by simp
    ultimately have "x / fl_quantum x = of_int (2 ^ 52) \<or> x / fl_quantum x = of_int (- (2 ^ 52))"
      by auto
    then show ?thesis by blast
  next
    case False
    with e53 have le: "e \<le> 52" by simp
    have "fl_quantum x = 1 / 2 ^ nat (52 - e)"
      using le by (simp add: q power_int_def inverse_eq_divide power_inverse [symmetric] divide_simps)
    then have "x / fl_quantum x = of_int (n * 2 ^ nat (52 - e))"
      by (simp add: x_def)
    then show ?thesis by blast
  qed
  then obtain k where k: "x / fl_quantum x = of_int k" ..
  have "fl_nearest x = of_int k * fl_quantum x"
    using x0 by (simp add: fl_nearest_def k round_half_even_of_int)
  also have "\<dots> = x" using k fl_quantum_pos [of x] by (simp add: field_simps)
  finally show ?thesis by (simp add: x_def)
qed

lemma fl_nearest_upper:
  assumes "0 \<le> y" and "y \<le> c + c / 2 ^ 53 + 1 / 2 ^ 51" and "0 \<le> c" and "c \<le> 2 ^ 31"
  shows "fl_nearest y < c + 1"
proof -
  have e: "fl_nearest y \<le> y + (y / 2 ^ 53 + 1 / 2 ^ 1075)"
    using fl_nearest_error [of y] assms(1) by (simp add: abs_le_iff)
  have t: "(1::rat) / 2 ^ 1075 \<le> 1 / 2 ^ 51" by simp
  have c1: "c / 2 ^ 53 \<le> 1 / 2 ^ 22" using assms(4) by simp
  have "y \<le> 2 ^ 31 + 1" using assms(2,4) c1 by simp
  then have y1: "y / 2 ^ 53 \<le> 1 / 2 ^ 21" by simp
  show ?thesis using e t c1 y1 assms(2) by simp
qed

lemma fl_nearest_lower:
  assumes "c - c / 2 ^ 53 - 1 / 2 ^ 51 \<le> y" and "y \<le> c + c / 2 ^ 53 + 1 / 2 ^ 51"
    and "1 \<le> c" and "c \<le> 2 ^ 31"
  shows "c - 1 < fl_nearest y"
proof -
  have c1: "c / 2 ^ 53 \<le> 1 / 2 ^ 22" using assms(4) by simp
  have y0: "0 \<le> y" using assms(1,3) c1 by simp
  have e: "y - (y / 2 ^ 53 + 1 / 2 ^ 1075) \<le> fl_nearest y"
    using fl_nearest_error [of y] y0 by (simp add: abs_le_iff)
  have t: "(1::rat) / 2 ^ 1075 \<le> 1 / 2 ^ 51" by simp
  have "y \<le> 2 ^ 31 + 1" using assms(2,4) c1 by simp
  then have y1: "y / 2 ^ 53 \<le> 1 / 2 ^ 21" by simp
  show ?thesis using e t c1 y1 assms(1) by simp
qed

lemma quotient_product_error:
  assumes "0 < w" and "w < 2 ^ 1024" and "0 \<le> c"
  shows "\<bar>w * fl_nearest (c / w) - c\<bar> \<le> c / 2 ^ 53 + 1 / 2 ^ 51"
proof -
  have "\<bar>fl_nearest (c / w) - c / w\<bar> \<le> \<bar>c / w\<bar> / 2 ^ 53 + 1 / 2 ^ 1075"
    by (rule fl_nearest_error)
  then have "w * \<bar>fl_nearest (c / w) - c / w\<bar> \<le> w * (\<bar>c / w\<bar> / 2 ^ 53 + 1 / 2 ^ 1075)"
    using assms(1) by (intro mult_left_mono) simp_all
  moreover have "w * \<bar>fl_nearest (c / w) - c / w\<bar> = \<bar>w * fl_nearest (c / w) - c\<bar>"
  proof -
    have "w * fl_nearest (c / w) - c = w * (fl_nearest (c / w) - c / w)"
      using assms(1) by (simp add: algebra_simps)
    then have "\<bar>w * fl_nearest (c / w) - c\<bar> = \<bar>w\<bar> * \<bar>fl_nearest (c / w) - c / w\<bar>"
      by (simp only: abs_mult)
    then show ?thesis using assms(1) by simp
  qed
  moreover have "w * (\<bar>c / w\<bar> / 2 ^ 53 + 1 / 2 ^ 1075) = c / 2 ^ 53 + w / 2 ^ 1075"
    using assms(1,3) by (simp add: algebra_simps)
  moreover have "w / 2 ^ 1075 \<le> 1 / 2 ^ 51"
    using assms(2) by simp
  ultimately show ?thesis by simp
qed

lemma fl_round_Fin: "fl_nearest x = r \<Longrightarrow> \<bar>r\<bar> < 2 ^ 1024 \<Longrightarrow> fl_round x = Fin r"
  by (simp add: fl_round_def Let_def abs_less_iff not_le)

lemma fl_nearest_numeral:
  "(numeral k :: int) \<le> 2 ^ 53 \<Longrightarrow> fl_nearest (numeral k) = numeral k"
  using fl_nearest_of_int [of "numeral k"] by simp

lemma fl_round_of_int:
  assumes "\<bar>n\<bar> \<le> 2 ^ 53"
  shows "fl_round (of_int n) = Fin (of_int n)"
proof -
  have "(of_int \<bar>n\<bar> :: rat) \<le> of_int (2 ^ 53)" using assms by (simp only: of_int_le_iff)
  moreover have "(of_int (2 ^ 53) :: rat) < 2 ^ 1024" by simp
  ultimately have "\<bar>of_int n :: rat\<bar> < 2 ^ 1024" by simp
  with fl_nearest_of_int [OF assms] show ?thesis by (rule fl_round_Fin)
qed

lemma fl_round_numeral:
  "(numeral k :: int) \<le> 2 ^ 53 \<Longrightarrow> fl_round (numeral k) = Fin (numeral k)"
  using fl_round_of_int [of "numeral k"] by simp

lemma float_of_int_numeral:
  "(numeral k :: int) \<le> 2 ^ 53 \<Longrightarrow> float_of_int (numeral k) = Inr (Fin (numeral k))"
  by (simp add: float_of_int_def fl_round_numeral)

lemmas final_dimensions_unfold =
  final_dimensions_def scale_factor_def bind_exn_def float_truediv_def float_mul_def py_min_def
  float_lt_def int_of_float_def Let_def

subsection \<open>The preview size\<close>

text \<open>
  Claim C9: for the intrinsic size \<open>200 \<times> 100\<close> and the box \<open>400 \<times> 300\<close> the scale factor
  is \<open>min(2.0, 3.0) = 2.0\<close> and the preview size is exactly \<open>400 \<times> 200\<close>.
\<close>

theorem final_dimensions_200x100:
  "scale_factor (400, 300) (Fin 200) (Fin 100) = Inr (Fin 2)
     \<and> final_dimensions (400, 300) (Fin 200) (Fin 100) = Inr (400, 200)"
  by (simp add: final_dimensions_unfold float_of_int_numeral fl_round_numeral)

lemma q97: "fl_nearest (400 / 97) = 290180388361501 / 70368744177664"
  by code_simp

lemma q97_fix: "fl_nearest (290180388361501 / 70368744177664) = 290180388361501 / 70368744177664"
  by code_simp

lemma p97: "fl_nearest (28147497671065597 / 70368744177664) = 7036874417766399 / 17592186044416"
  by code_simp

text \<open>
  Claim C1 as stated fails: the two roundings of \<open>97 * (400 / 97)\<close> give
  \<open>399.99999999999994\<close>, which \<open>int\<close> truncates to 399, so an SVG of intrinsic size
  \<open>97 \<times> 1\<close> gets the preview size \<open>399 \<times> 4\<close> in the \<open>400 \<times> 300\<close> box: neither axis
  reaches the box.
\<close>

theorem final_dimensions_equality_counterexample:
  "final_dimensions (400, 300) (Fin 97) (Fin 1) = Inr (399, 4)
     \<and> (399::int) \<noteq> 400 \<and> (4::int) \<noteq> 300"
proof -
  define q :: rat where "q = 290180388361501 / 70368744177664"
  define p :: rat where "p = 7036874417766399 / 17592186044416"
  have a: "fl_round (400 / 97) = Fin q"
    unfolding q_def by (rule fl_round_Fin [OF q97]) simp
  have b: "fl_round (97 * q) = Fin p"
    unfolding q_def p_def by (simp, rule fl_round_Fin [OF p97]) simp
  have c: "fl_round q = Fin q"
    unfolding q_def by (rule fl_round_Fin [OF q97_fix]) simp
  have d1: "float_truediv (Fin 400) (Fin 97) = Inr (Fin q)"
    by (simp add: float_truediv_def a)
  have d2: "float_truediv (Fin 300) (Fin 1) = Inr (Fin 300)"
    by (simp add: float_truediv_def fl_round_numeral)
  have m: "py_min (Fin q) [Fin 300] = Fin q"
    by (simp add: py_min_def float_lt_def q_def)
  have m1: "float_mul (Fin 97) (Fin q) = Fin p"
    by (simp add: float_mul_def b)
  have m2: "float_mul (Fin 1) (Fin q) = Fin q"
    by (simp add: float_mul_def c)
  have i1: "int_of_float (Fin p) = Inr 399"
    by (simp add: int_of_float_def p_def floor_eq_iff)
  have i2: "int_of_float (Fin q) = Inr 4"
    by (simp add: int_of_float_def q_def floor_eq_iff)
  show ?thesis
    by (simp add: final_dimensions_def scale_factor_def bind_exn_def float_of_int_numeral
        d1 d2 m m1 m2 i1 i2)
qed

lemma axis_product_bounds:
  assumes w: "0 < w" "w < 2 ^ 1024" and c: "0 \<le> c" "c \<le> 2 ^ 31"
    and s: "0 \<le> s" "s \<le> fl_nearest (c / w)"
  shows "0 \<le> fl_nearest (w * s)" and "fl_nearest (w * s) < c + 1"
proof -
  have ws0: "0 \<le> w * s" using w(1) s(1) by simp
  then show "0 \<le> fl_nearest (w * s)" by (rule fl_nearest_nonneg)
  have "w * s \<le> w * fl_nearest (c / w)" using w(1) s(2) by (simp add: mult_left_mono)
  also have "\<dots> \<le> c + c / 2 ^ 53 + 1 / 2 ^ 51"
    using quotient_product_error [OF w c(1)] by (simp add: abs_le_iff)
  finally show "fl_nearest (w * s) < c + 1"
    using ws0 c by (intro fl_nearest_upper) simp_all
qed

lemma axis_product_lower:
  assumes w: "0 < w" "w < 2 ^ 1024" and c: "1 \<le> c" "c \<le> 2 ^ 31"
  shows "c - 1 < fl_nearest (w * fl_nearest (c / w))"
proof -
  have c0: "0 \<le> c" using c(1) by simp
  from quotient_product_error [OF w c0]
  have "c - c / 2 ^ 53 - 1 / 2 ^ 51 \<le> w * fl_nearest (c / w)"
    and "w * fl_nearest (c / w) \<le> c + c / 2 ^ 53 + 1 / 2 ^ 51"
    by (simp_all add: abs_le_iff)
  then show ?thesis using c by (intro fl_nearest_lower) simp_all
qed

lemma axis_pixels:
  assumes w: "0 < w" "w < 2 ^ 1024" and n: "1 \<le> n" "n \<le> 2 ^ 31"
    and s: "0 \<le> s" "s \<le> fl_nearest (of_int n / w)"
  shows "\<exists>f. int_of_float (float_mul (Fin w) (Fin s)) = Inr f \<and> 0 \<le> f \<and> f \<le> n
           \<and> (s = fl_nearest (of_int n / w) \<longrightarrow> n - 1 \<le> f)"
proof -
  define c :: rat where "c = of_int n"
  define p where "p = fl_nearest (w * s)"
  have "(of_int 1 :: rat) \<le> of_int n" using n(1) by (simp only: of_int_le_iff)
  then have c1: "1 \<le> c" by (simp add: c_def)
  have "(of_int n :: rat) \<le> of_int (2 ^ 31)" using n(2) by (simp only: of_int_le_iff)
  then have c31: "c \<le> 2 ^ 31" by (simp add: c_def)
  have c0: "0 \<le> c" using c1 by simp
  from axis_product_bounds [OF w c0 c31 s [folded c_def]]
  have p0: "0 \<le> p" and pu: "p < c + 1" by (simp_all add: p_def)
  have "p < 2 ^ 31 + 1" using pu c31 by simp
  moreover have "(2::rat) ^ 31 + 1 < 2 ^ 1024" by simp
  ultimately have "\<bar>p\<bar> < 2 ^ 1024" using p0 by simp
  then have r: "fl_round (w * s) = Fin p" by (intro fl_round_Fin) (simp_all add: p_def)
  have i: "int_of_float (float_mul (Fin w) (Fin s)) = Inr \<lfloor>p\<rfloor>"
    using p0 by (simp add: int_of_float_def float_mul_def r)
  have f0: "0 \<le> \<lfloor>p\<rfloor>" using p0 by simp
  have "p < of_int (n + 1)" using pu by (simp add: c_def)
  then have "\<lfloor>p\<rfloor> < n + 1" by (simp only: floor_less_iff)
  then have fu: "\<lfloor>p\<rfloor> \<le> n" by simp
  have fl: "n - 1 \<le> \<lfloor>p\<rfloor>" if "s = fl_nearest (of_int n / w)"
  proof -
    have "c - 1 < p" unfolding p_def that c_def [symmetric]
      by (rule axis_product_lower [OF w c1 c31])
    then have "of_int (n - 1) \<le> p" by (simp add: c_def)
    then show ?thesis by (simp only: le_floor_iff)
  qed
  show ?thesis using i f0 fu fl by blast
qed

lemma scale_quotient:
  assumes w: "0 < w" and n: "1 \<le> n" "n \<le> 2 ^ 31"
  shows "float_of_int n = Inr (Fin (of_int n))"
    and "float_truediv (Fin (of_int n)) (Fin w) =
           Inr (if 2 ^ 1024 \<le> fl_nearest (of_int n / w) then PInf else Fin (fl_nearest (of_int n / w)))"
proof -
  have "\<bar>n\<bar> \<le> 2 ^ 53" using n by simp
  then show "float_of_int n = Inr (Fin (of_int n))"
    by (simp add: float_of_int_def fl_round_of_int)
  have "(0::rat) \<le> of_int n / w" using w n(1) by simp
  then have "0 \<le> fl_nearest (of_int n / w)" by (rule fl_nearest_nonneg)
  then have "\<not> fl_nearest (of_int n / w) \<le> - (2 ^ 1024)" by simp
  then show "float_truediv (Fin (of_int n)) (Fin w) =
           Inr (if 2 ^ 1024 \<le> fl_nearest (of_int n / w) then PInf else Fin (fl_nearest (of_int n / w)))"
    using w by (simp add: float_truediv_def fl_round_def Let_def)
qed

lemma overflow_tiny:
  assumes w: "0 < w" and n: "n \<le> 2 ^ 31" and o: "2 ^ 1024 \<le> fl_nearest (of_int n / w)"
  shows "w < 1 / 2 ^ 990"
proof -
  define x :: rat where "x = of_int n / w"
  have "(of_int n :: rat) \<le> of_int (2 ^ 31)" using n by (simp only: of_int_le_iff)
  then have c31: "(of_int n :: rat) \<le> 2 ^ 31" by simp
  have "fl_nearest x \<le> x + (\<bar>x\<bar> / 2 ^ 53 + 1 / 2 ^ 1075)"
    using fl_nearest_error [of x] by (simp add: abs_le_iff)
  with o have xb: "2 ^ 1024 \<le> x + (\<bar>x\<bar> / 2 ^ 53 + 1 / 2 ^ 1075)" by (simp add: x_def)
  have x0: "0 < x"
  proof (rule ccontr)
    assume "\<not> 0 < x"
    then have "x + \<bar>x\<bar> / 2 ^ 53 \<le> 0" by simp
    with xb show False by simp
  qed
  have "\<bar>x\<bar> / 2 ^ 53 \<le> x" using x0 by simp
  then have "2 ^ 1024 \<le> 2 * x + 1" using xb by simp
  then have "2 ^ 1022 \<le> x" by simp
  then have "2 ^ 1022 * w \<le> of_int n" using w by (simp add: x_def pos_le_divide_eq)
  then have "2 ^ 1022 * w \<le> 2 ^ 31" using c31 by simp
  then have "w \<le> 2 ^ 31 / 2 ^ 1022" by (simp add: pos_le_divide_eq mult.commute)
  then show ?thesis by simp
qed

text \<open>
  Claim C1, amended: for every finite positive intrinsic size and every box of at least one
  and at most \<open>2\<^sup>3\<^sup>1\<close> pixels a side, the preview size fits the box (\<open>0 \<le> final_width \<le>
  canvas_width\<close> and \<open>0 \<le> final_height \<le> canvas_height\<close>) and on at least one axis it is
  within one pixel of the box. The computation raises only when both quotients overflow,
  which needs both intrinsic dimensions below \<open>2\<^sup>-\<^sup>9\<^sup>9\<^sup>0\<close>.
\<close>

theorem final_dimensions_within_one_pixel:
  assumes w: "0 < w" "w < 2 ^ 1024" and h: "0 < h" "h < 2 ^ 1024"
    and cw: "1 \<le> cw" "cw \<le> 2 ^ 31" and ch: "1 \<le> ch" "ch \<le> 2 ^ 31"
  shows "(final_dimensions (cw, ch) (Fin w) (Fin h) = Inl OverflowError
            \<and> w < 1 / 2 ^ 990 \<and> h < 1 / 2 ^ 990)
         \<or> (\<exists>fw fh. final_dimensions (cw, ch) (Fin w) (Fin h) = Inr (fw, fh)
               \<and> 0 \<le> fw \<and> fw \<le> cw \<and> 0 \<le> fh \<and> fh \<le> ch
               \<and> (cw - 1 \<le> fw \<or> ch - 1 \<le> fh))"
proof -
  define qx where "qx = fl_nearest (of_int cw / w)"
  define qy where "qy = fl_nearest (of_int ch / h)"
  define sx where "sx = (if 2 ^ 1024 \<le> qx then PInf else Fin qx)"
  define sy where "sy = (if 2 ^ 1024 \<le> qy then PInf else Fin qy)"
  have qx0: "0 \<le> qx" unfolding qx_def using w(1) cw(1) by (intro fl_nearest_nonneg) simp
  have qy0: "0 \<le> qy" unfolding qy_def using h(1) ch(1) by (intro fl_nearest_nonneg) simp
  have ix: "float_of_int cw = Inr (Fin (of_int cw))" by (rule scale_quotient(1) [OF w(1) cw])
  have iy: "float_of_int ch = Inr (Fin (of_int ch))" by (rule scale_quotient(1) [OF h(1) ch])
  have dx: "float_truediv (Fin (of_int cw)) (Fin w) = Inr sx"
    unfolding sx_def qx_def by (rule scale_quotient(2) [OF w(1) cw])
  have dy: "float_truediv (Fin (of_int ch)) (Fin h) = Inr sy"
    unfolding sy_def qy_def by (rule scale_quotient(2) [OF h(1) ch])
  have fd: "final_dimensions (cw, ch) (Fin w) (Fin h) =
      bind_exn (int_of_float (float_mul (Fin w) (py_min sx [sy]))) (\<lambda>final_width.
      bind_exn (int_of_float (float_mul (Fin h) (py_min sx [sy]))) (\<lambda>final_height.
      Inr (final_width, final_height)))"
    by (simp add: final_dimensions_def scale_factor_def bind_exn_def Let_def ix iy dx dy)
  show ?thesis
  proof (cases "2 ^ 1024 \<le> qx \<and> 2 ^ 1024 \<le> qy")
    case True
    then have "py_min sx [sy] = PInf" by (simp add: sx_def sy_def py_min_def float_lt_def)
    then have "final_dimensions (cw, ch) (Fin w) (Fin h) = Inl OverflowError"
      using w(1) by (simp add: fd float_mul_def int_of_float_def bind_exn_def)
    moreover have "w < 1 / 2 ^ 990"
      using True by (intro overflow_tiny [OF w(1) cw(2)]) (simp add: qx_def)
    moreover have "h < 1 / 2 ^ 990"
      using True by (intro overflow_tiny [OF h(1) ch(2)]) (simp add: qy_def)
    ultimately show ?thesis by blast
  next
    case False
    define s where "s = (if 2 ^ 1024 \<le> qx then qy else if 2 ^ 1024 \<le> qy then qx
                          else if qy < qx then qy else qx)"
    have m: "py_min sx [sy] = Fin s"
      using False by (auto simp: sx_def sy_def s_def py_min_def float_lt_def)
    have s0: "0 \<le> s" using qx0 qy0 by (simp add: s_def)
    have slx: "s \<le> qx" and sly: "s \<le> qy" using False by (auto simp: s_def)
    have seq: "s = qx \<or> s = qy" by (simp add: s_def)
    from axis_pixels [OF w cw s0 slx [unfolded qx_def]] obtain fw where
      fw: "int_of_float (float_mul (Fin w) (Fin s)) = Inr fw" "0 \<le> fw" "fw \<le> cw"
        "s = qx \<longrightarrow> cw - 1 \<le> fw"
      unfolding qx_def by blast
    from axis_pixels [OF h ch s0 sly [unfolded qy_def]] obtain fh where
      fh: "int_of_float (float_mul (Fin h) (Fin s)) = Inr fh" "0 \<le> fh" "fh \<le> ch"
        "s = qy \<longrightarrow> ch - 1 \<le> fh"
      unfolding qy_def by blast
    have "final_dimensions (cw, ch) (Fin w) (Fin h) = Inr (fw, fh)"
      by (simp add: fd m fw(1) fh(1) bind_exn_def)
    moreover have "cw - 1 \<le> fw \<or> ch - 1 \<le> fh" using seq fw(4) fh(4) by blast
    ultimately show ?thesis using fw(2,3) fh(2,3) by blast
  qed
qed

theorem final_dimensions_within_one_pixel_witness:
  "(final_dimensions (400, 300) (Fin 97) (Fin 1) = Inl OverflowError
      \<and> (97::rat) < 1 / 2 ^ 990 \<and> (1::rat) < 1 / 2 ^ 990)
   \<or> (\<exists>fw fh. final_dimensions (400, 300) (Fin 97) (Fin 1) = Inr (fw, fh)
         \<and> 0 \<le> fw \<and> fw \<le> 400 \<and> 0 \<le> fh \<and> fh \<le> 300
         \<and> (400 - 1 \<le> fw \<or> 300 - 1 \<le> fh))"
  using final_dimensions_within_one_pixel [of 97 1 400 300] by simp

subsection \<open>The display size\<close>

lemma bind_exn_simps:
  "bind_exn (Inr x) f = f x" "bind_exn (Inl e) f = Inl e"
  by (simp_all add: bind_exn_def)

lemma floor_nearest_le:
  assumes "0 \<le> y" and "y \<le> of_int n" and "0 \<le> n" and "n \<le> 2 ^ 31"
  shows "fl_round y = Fin (fl_nearest y)" and "0 \<le> \<lfloor>fl_nearest y\<rfloor>" and "\<lfloor>fl_nearest y\<rfloor> \<le> n"
proof -
  define c :: rat where "c = of_int n"
  have "(of_int 0 :: rat) \<le> of_int n" using assms(3) by (simp only: of_int_le_iff)
  then have c0: "0 \<le> c" by (simp add: c_def)
  have "(of_int n :: rat) \<le> of_int (2 ^ 31)" using assms(4) by (simp only: of_int_le_iff)
  then have c31: "c \<le> 2 ^ 31" by (simp add: c_def)
  have "y \<le> c + c / 2 ^ 53 + 1 / 2 ^ 51" using assms(2) c0 by (simp add: c_def)
  then have u: "fl_nearest y < c + 1" using assms(1) c0 c31 by (intro fl_nearest_upper)
  have p0: "0 \<le> fl_nearest y" using assms(1) by (rule fl_nearest_nonneg)
  then show "0 \<le> \<lfloor>fl_nearest y\<rfloor>" by simp
  have "fl_nearest y < 2 ^ 31 + 1" using u c31 by simp
  moreover have "(2::rat) ^ 31 + 1 < 2 ^ 1024" by simp
  ultimately have "\<bar>fl_nearest y\<bar> < 2 ^ 1024" using p0 by simp
  then show "fl_round y = Fin (fl_nearest y)" by (intro fl_round_Fin) simp_all
  have "fl_nearest y < of_int (n + 1)" using u by (simp add: c_def)
  then have "\<lfloor>fl_nearest y\<rfloor> < n + 1" by (simp only: floor_less_iff)
  then show "\<lfloor>fl_nearest y\<rfloor> \<le> n" by simp
qed

lemma int_truediv_small:
  assumes "0 \<le> a" and "a \<le> 2 ^ 31" and "0 < b"
  shows "int_truediv a b = Inr (Fin (fl_nearest (of_int a / of_int b)))"
    and "0 \<le> fl_nearest (of_int a / of_int b)"
proof -
  define x :: rat where "x = of_int a / of_int b"
  have x0: "0 \<le> x" using assms(1,3) by (simp add: x_def)
  have "(of_int 1 :: rat) \<le> of_int b" using assms(3) by (simp only: of_int_le_iff)
  then have "(1::rat) \<le> of_int b" by simp
  moreover have "(0::rat) \<le> of_int a" using assms(1) by simp
  ultimately have "of_int a / of_int b \<le> (of_int a :: rat) / 1"
    by (intro divide_left_mono) simp_all
  then have xa: "x \<le> of_int a" by (simp add: x_def)
  from floor_nearest_le(1) [OF x0 xa assms(1,2)]
  show "int_truediv a b = Inr (Fin (fl_nearest (of_int a / of_int b)))"
    using assms(3) by (simp add: int_truediv_def x_def)
  show "0 \<le> fl_nearest (of_int a / of_int b)"
    using x0 unfolding x_def by (rule fl_nearest_nonneg)
qed

lemma scaled_side:
  assumes i: "0 < i" "i \<le> 2 ^ 31" and a: "1 \<le> a" "a \<le> 2 ^ 31"
    and s: "0 \<le> s" "s \<le> 1" "s \<le> fl_nearest (of_int a / of_int i)"
  shows "\<exists>n. bind_exn (int_float_mul i (Fin s)) int_of_float = Inr n \<and> 0 \<le> n \<and> n \<le> i \<and> n \<le> a"
proof -
  define w :: rat where "w = of_int i"
  have w0: "0 < w" using i(1) by (simp add: w_def)
  have "(of_int i :: rat) \<le> of_int (2 ^ 31)" using i(2) by (simp only: of_int_le_iff)
  then have "w \<le> 2 ^ 31" by (simp add: w_def)
  moreover have "(2::rat) ^ 31 < 2 ^ 1024" by simp
  ultimately have wM: "w < 2 ^ 1024" by simp
  have "\<bar>i\<bar> \<le> 2 ^ 53" using i by simp
  then have fi: "float_of_int i = Inr (Fin w)"
    by (simp add: float_of_int_def fl_round_of_int w_def)
  have y0: "0 \<le> w * s" using w0 s(1) by simp
  have "w * s \<le> w * 1" using w0 s(2) by (intro mult_left_mono) simp_all
  then have yi: "w * s \<le> of_int i" by (simp add: w_def)
  have i0: "0 \<le> i" using i(1) by simp
  note f = floor_nearest_le [OF y0 yi i0 i(2)]
  have r: "bind_exn (int_float_mul i (Fin s)) int_of_float = Inr \<lfloor>fl_nearest (w * s)\<rfloor>"
    using fl_nearest_nonneg [OF y0]
    by (simp add: int_float_mul_def bind_exn_def fi float_mul_def f(1) int_of_float_def)
  have "(of_int 1 :: rat) \<le> of_int a" using a(1) by (simp only: of_int_le_iff)
  then have c0: "(0::rat) \<le> of_int a" by simp
  have "(of_int a :: rat) \<le> of_int (2 ^ 31)" using a(2) by (simp only: of_int_le_iff)
  then have c31: "(of_int a :: rat) \<le> 2 ^ 31" by simp
  from axis_product_bounds(2) [OF w0 wM c0 c31 s(1) s(3) [folded w_def]]
  have "fl_nearest (w * s) < of_int (a + 1)" by simp
  then have "\<lfloor>fl_nearest (w * s)\<rfloor> < a + 1" by (simp only: floor_less_iff)
  then have "\<lfloor>fl_nearest (w * s)\<rfloor> \<le> a" by simp
  with r f(2,3) show ?thesis by blast
qed

lemma available_area_bounds:
  assumes "ww \<le> 2 ^ 31" and "wh \<le> 2 ^ 31"
  shows "370 \<le> fst (available_area (ww, wh))" and "fst (available_area (ww, wh)) \<le> 2 ^ 31"
    and "270 \<le> snd (available_area (ww, wh))" and "snd (available_area (ww, wh)) \<le> 2 ^ 31"
  using assms by (simp_all add: available_area_def Let_def max_def)

text \<open>
  Claim C10: for every image with positive width and height (sizes and canvas dimensions up
  to \<open>2\<^sup>3\<^sup>1\<close>, which covers what PIL and Tk can represent), the scale factor of
  \<^verbatim>\<open>display_image_consistent\<close> is finite and at most \<open>1.0\<close>, and the displayed size exceeds
  neither the image's own size nor the available area of the canvas. The preview size of
  \<^verbatim>\<open>convert_svg_to_png_wsl2\<close> has no such cap: a \<open>100 \<times> 100\<close> SVG is enlarged there.
\<close>

theorem display_image_consistent_never_upscales:
  assumes iw: "0 < iw" "iw \<le> 2 ^ 31" and ih: "0 < ih" "ih \<le> 2 ^ 31"
    and ww: "ww \<le> 2 ^ 31" and wh: "wh \<le> 2 ^ 31"
  shows "\<exists>s nw nh.
           display_scale_factor (ww, wh) (iw, ih) = Inr (Fin s) \<and> 0 \<le> s \<and> s \<le> 1
         \<and> display_new_size (ww, wh) (iw, ih) = Inr (nw, nh)
         \<and> 0 \<le> nw \<and> nw \<le> iw \<and> 0 \<le> nh \<and> nh \<le> ih
         \<and> nw \<le> fst (available_area (ww, wh)) \<and> nh \<le> snd (available_area (ww, wh))
         \<and> final_dimensions (400, 300) (Fin 100) (Fin 100) = Inr (300, 300)"
proof -
  obtain aw ah where av: "available_area (ww, wh) = (aw, ah)" by (cases "available_area (ww, wh)")
  from available_area_bounds [OF ww wh]
  have aw: "370 \<le> aw" "aw \<le> 2 ^ 31" and ah: "270 \<le> ah" "ah \<le> 2 ^ 31" by (simp_all add: av)
  have aw0: "0 \<le> aw" and aw1: "1 \<le> aw" using aw(1) by simp_all
  have ah0: "0 \<le> ah" and ah1: "1 \<le> ah" using ah(1) by simp_all
  define qx where "qx = fl_nearest (of_int aw / of_int iw)"
  define qy where "qy = fl_nearest (of_int ah / of_int ih)"
  note dx = int_truediv_small [OF aw0 aw(2) iw(1), folded qx_def]
  note dy = int_truediv_small [OF ah0 ah(2) ih(1), folded qy_def]
  define s where "s = (let m = (if qy < qx then qy else qx) in if 1 < m then 1 else m)"
  have sc: "display_scale_factor (ww, wh) (iw, ih) = Inr (Fin s)"
    by (simp add: display_scale_factor_def av bind_exn_def dx(1) dy(1) py_min_def float_lt_def
        s_def Let_def)
  have s0: "0 \<le> s" and s1: "s \<le> 1" and sx: "s \<le> qx" and sy: "s \<le> qy"
    using dx(2) dy(2) by (auto simp: s_def Let_def)
  from scaled_side [OF iw aw1 aw(2) s0 s1 sx [unfolded qx_def]] obtain nw where
    nw: "bind_exn (int_float_mul iw (Fin s)) int_of_float = Inr nw" "0 \<le> nw" "nw \<le> iw" "nw \<le> aw"
    by blast
  from scaled_side [OF ih ah1 ah(2) s0 s1 sy [unfolded qy_def]] obtain nh where
    nh: "bind_exn (int_float_mul ih (Fin s)) int_of_float = Inr nh" "0 \<le> nh" "nh \<le> ih" "nh \<le> ah"
    by blast
  have "display_new_size (ww, wh) (iw, ih) = Inr (nw, nh)"
    by (simp add: display_new_size_def sc nw(1) nh(1) bind_exn_simps)
  moreover have "final_dimensions (400, 300) (Fin 100) (Fin 100) = Inr (300, 300)"
    by (simp add: final_dimensions_unfold float_of_int_numeral fl_round_numeral)
  ultimately show ?thesis using sc s0 s1 nw(2-) nh(2-) by (simp add: av)
qed

theorem display_image_consistent_never_upscales_witness:
  "\<exists>s nw nh.
     display_scale_factor (400, 300) (1000, 500) = Inr (Fin s) \<and> 0 \<le> s \<and> s \<le> 1
   \<and> display_new_size (400, 300) (1000, 500) = Inr (nw, nh)
   \<and> 0 \<le> nw \<and> nw \<le> 1000 \<and> 0 \<le> nh \<and> nh \<le> 500
   \<and> nw \<le> fst (available_area (400, 300)) \<and> nh \<le> snd (available_area (400, 300))
   \<and> final_dimensions (400, 300) (Fin 100) (Fin 100) = Inr (300, 300)"
  by (rule display_image_consistent_never_upscales) simp_all

end
